theory Spec2Isabelle
  imports Main
begin

section \<open>The screen buffer of export.py\<close>

text \<open>
  A shallow embedding of the class \<open>DisplayBuffer\<close> of \<open>src/export.py\<close>: the grid of
  cells, the cursor, the current colour, the tokenizer of \<open>write\<close>, the SGR and erase
  interpreters, cursor motion with scrolling, and the render pass.

  Python integers are \<open>int\<close>. A chunk is a \<open>string\<close>: one \<open>char\<close> per character of the
  Python string, which covers every code point the regular expressions of the source name
  (all below 256). The \<open>verbose\<close> log only prints and is not part of the state.
\<close>

subsection \<open>Data\<close>

text \<open>
  The attribute \<open>color\<close> holds \<open>None\<close>, an \<open>int\<close> or a 3-tuple of \<open>int\<close>s; \<open>render\<close>
  tells the last two apart by \<open>type(prevcolor) == int\<close>. \<open>None\<close> is \<open>None\<close> of
  \<open>color option\<close>.
\<close>

datatype color = Indexed int | Rgb int int int

text \<open>
  The class \<open>Cell\<close> with its attributes \<open>c\<close> and \<open>color\<close> (prefixed here, since the
  buffer has a \<open>color\<close> of its own).
\<close>

record Cell =
  cell_c :: char
  cell_color :: "color option"

record DisplayBuffer =
  width :: int
  height :: int
  cursor_x :: int
  cursor_y :: int
  color :: "color option"
  contents :: "Cell list list"

datatype error = IndexError | UnboundLocalError

text \<open>
  A method mutates the buffer in place and either returns or raises; the mutations made
  before an exception stay. \<open>Raised e b\<close> is the exception \<open>e\<close> leaving the buffer as \<open>b\<close>.
\<close>

datatype outcome = Returned DisplayBuffer | Raised error DisplayBuffer

fun state_of :: "outcome \<Rightarrow> DisplayBuffer" where
  "state_of (Returned b) = b"
| "state_of (Raised e b) = b"

text \<open>Sequencing of two statements: the second runs when the first returned.\<close>

fun and_then :: "outcome \<Rightarrow> (DisplayBuffer \<Rightarrow> outcome) \<Rightarrow> outcome" where
  "and_then (Returned b) f = f b"
| "and_then (Raised e b) f = Raised e b"

text \<open>\<open>for x in xs: body\<close>.\<close>

primrec for_each :: "'a list \<Rightarrow> ('a \<Rightarrow> DisplayBuffer \<Rightarrow> outcome) \<Rightarrow> DisplayBuffer \<Rightarrow> outcome" where
  "for_each [] body b = Returned b"
| "for_each (x # xs) body b = and_then (body x b) (for_each xs body)"

text \<open>\<open>range(a, b)\<close>: the integers from \<open>a\<close> up to \<open>b - 1\<close>, none when \<open>b \<le> a\<close>.\<close>

definition range_py :: "int \<Rightarrow> int \<Rightarrow> int list" where
  "range_py a b = [a..b - 1]"

text \<open>
  The position a Python list index denotes: a negative index counts from the end, and an
  index outside \<open>-len .. len - 1\<close> raises IndexError (\<open>None\<close> here).
\<close>

definition index_py :: "'a list \<Rightarrow> int \<Rightarrow> nat option" where
  "index_py xs i =
     (let n = int (length xs); j = (if i < 0 then n + i else i)
      in if 0 \<le> j \<and> j < n then Some (nat j) else None)"

abbreviation blank :: char where
  "blank \<equiv> CHR '' ''"

text \<open>\<open>__init__\<close>.\<close>

definition init :: "int \<Rightarrow> int \<Rightarrow> DisplayBuffer" where
  "init w h =
     \<lparr>width = w, height = h, cursor_x = 0, cursor_y = 0, color = None,
      contents = map (\<lambda>y. map (\<lambda>x. \<lparr>cell_c = blank, cell_color = None\<rparr>) (range_py 0 w))
                     (range_py 0 h)\<rparr>"

text \<open>\<open>__getitem__\<close> and \<open>__setitem__\<close>.\<close>

definition getitem :: "DisplayBuffer \<Rightarrow> int \<times> int \<Rightarrow> char option" where
  "getitem b pos =
     (case pos of (x, y) \<Rightarrow>
        (case index_py (contents b) y of
           None \<Rightarrow> None
         | Some j \<Rightarrow>
             (case index_py (contents b ! j) x of
                None \<Rightarrow> None
              | Some k \<Rightarrow> Some (cell_c (contents b ! j ! k)))))"

definition setitem :: "DisplayBuffer \<Rightarrow> int \<times> int \<Rightarrow> char \<Rightarrow> outcome" where
  "setitem b pos ch =
     (case pos of (x, y) \<Rightarrow>
        (case index_py (contents b) y of
           None \<Rightarrow> Raised IndexError b
         | Some j \<Rightarrow>
             (case index_py (contents b ! j) x of
                None \<Rightarrow> Raised IndexError b
              | Some k \<Rightarrow>
                  Returned (b\<lparr>contents := (contents b)
                    [j := (contents b ! j)
                       [k := (contents b ! j ! k)\<lparr>cell_c := ch, cell_color := color b\<rparr>]]\<rparr>))))"

subsection \<open>Cursor motion and scrolling\<close>

text \<open>
  One pass of the body of \<open>while self.cursor_y >= self.height\<close> in \<open>moveCursor\<close>:
  \<open>pop(0)\<close> raises IndexError on an empty list.
\<close>

definition scroll :: "DisplayBuffer \<Rightarrow> outcome" where
  "scroll b =
     (case contents b of
        [] \<Rightarrow> Raised IndexError b
      | row # rest \<Rightarrow>
          and_then
            (for_each (range_py 0 (width b)) (\<lambda>x b'. setitem b' (x, height b' - 1) blank)
               (b\<lparr>contents := rest @ [row]\<rparr>))
            (\<lambda>b'. Returned (b'\<lparr>cursor_y := cursor_y b' - 1\<rparr>)))"

lemma and_then_cases:
  "and_then r f = Returned b' \<longleftrightarrow> (\<exists>b1. r = Returned b1 \<and> f b1 = Returned b')"
  by (cases r) auto

lemma setitem_fields:
  "width (state_of (setitem b pos ch)) = width b"
  "height (state_of (setitem b pos ch)) = height b"
  "cursor_x (state_of (setitem b pos ch)) = cursor_x b"
  "cursor_y (state_of (setitem b pos ch)) = cursor_y b"
  "color (state_of (setitem b pos ch)) = color b"
  by (auto simp: setitem_def split: prod.splits option.splits)


lemma for_each_preserves:
  assumes "\<And>x b. P b \<Longrightarrow> P (state_of (body x b))" and "P b"
  shows "P (state_of (for_each xs body b))"
  using assms(2)
proof (induction xs arbitrary: b)
  case Nil
  then show ?case by simp
next
  case (Cons x xs)
  from Cons.prems have step: "P (state_of (body x b))" by (rule assms(1))
  show ?case
  proof (cases "body x b")
    case (Returned b1)
    with step have "P b1" by simp
    then have "P (state_of (for_each xs body b1))" by (rule Cons.IH)
    with Returned show ?thesis by simp
  next
    case (Raised e b1)
    with step show ?thesis by simp
  qed
qed

lemma scroll_cursor_y:
  assumes "scroll b = Returned b'"
  shows "cursor_y b' = cursor_y b - 1 \<and> height b' = height b"
proof (cases "contents b")
  case Nil
  with assms show ?thesis by (simp add: scroll_def)
next
  case (Cons row rest)
  let ?b0 = "b\<lparr>contents := rest @ [row]\<rparr>"
  let ?loop = "for_each (range_py 0 (width b)) (\<lambda>x b'. setitem b' (x, height b' - 1) blank) ?b0"
  have "cursor_y (state_of ?loop) = cursor_y b \<and> height (state_of ?loop) = height b"
    by (rule for_each_preserves) (simp_all add: setitem_fields)
  moreover from assms Cons obtain b1 where "?loop = Returned b1"
    and "b' = b1\<lparr>cursor_y := cursor_y b1 - 1\<rparr>"
    by (auto simp: scroll_def and_then_cases)
  ultimately show ?thesis by simp
qed

function scroll_loop :: "DisplayBuffer \<Rightarrow> outcome" where
  "scroll_loop b =
     (if cursor_y b \<ge> height b
      then (case scroll b of
              Raised e b' \<Rightarrow> Raised e b'
            | Returned b' \<Rightarrow> scroll_loop b')
      else Returned b)"
  by pat_completeness auto
termination
  by (relation "measure (\<lambda>b. nat (cursor_y b - height b + 1))")
     (auto dest: scroll_cursor_y)

declare scroll_loop.simps [simp del]

definition moveCursor :: "DisplayBuffer \<Rightarrow> int \<Rightarrow> int \<Rightarrow> outcome" where
  "moveCursor b dx dy =
     (let b1 = b\<lparr>cursor_x := cursor_x b + dx\<rparr>;
          (b2, dy2) = (if cursor_x b1 \<ge> width b1 then (b1\<lparr>cursor_x := 0\<rparr>, dy + 1)
                       else (b1, dy));
          b3 = (if cursor_x b2 < 0 then b2\<lparr>cursor_x := 0\<rparr> else b2);
          b4 = b3\<lparr>cursor_y := cursor_y b3 + dy2\<rparr>
      in scroll_loop b4)"

subsection \<open>Text and control characters\<close>

definition writeText :: "DisplayBuffer \<Rightarrow> string \<Rightarrow> outcome" where
  "writeText b text =
     for_each text
       (\<lambda>ch b'. and_then (setitem b' (cursor_x b', cursor_y b') ch) (\<lambda>b''. moveCursor b'' 1 0)) b"

definition writeCR :: "DisplayBuffer \<Rightarrow> outcome" where
  "writeCR b = moveCursor b (- cursor_x b) 0"

definition writeLF :: "DisplayBuffer \<Rightarrow> outcome" where
  "writeLF b = moveCursor b (- cursor_x b) 1"

definition writeBackspace :: "DisplayBuffer \<Rightarrow> outcome" where
  "writeBackspace b =
     and_then (moveCursor b (- 1) 0) (\<lambda>b'. setitem b' (cursor_x b', cursor_y b') blank)"

subsection \<open>Erase\<close>

text \<open>
  The four locals \<open>startx\<close>, \<open>endx\<close>, \<open>starty\<close>, \<open>endy\<close> are bound by the
  \<open>if\<close>/\<open>elif\<close> chain, which has no \<open>else\<close>: after any other \<open>sequence\<close> they are unbound
  (\<open>None\<close> here) and their first use, \<open>range(startx, endx)\<close>, raises UnboundLocalError.
\<close>

definition erase_bounds :: "DisplayBuffer \<Rightarrow> string \<Rightarrow> (int \<times> int \<times> int \<times> int) option" where
  "erase_bounds b sequence =
     (if sequence = ''0'' \<or> sequence = [] then
        Some (cursor_x b, width b, cursor_y b + 1, height b)
      else if sequence = ''1'' then
        Some (0, cursor_x b, 0, cursor_y b - 1)
      else if sequence = ''2'' then
        Some (0, width b, 0, height b)
      else None)"

definition erase :: "DisplayBuffer \<Rightarrow> char \<Rightarrow> string \<Rightarrow> outcome" where
  "erase b func sequence =
     (case erase_bounds b sequence of
        None \<Rightarrow> Raised UnboundLocalError b
      | Some (startx, endx, starty, endy) \<Rightarrow>
          and_then
            (for_each (range_py startx endx) (\<lambda>x b'. setitem b' (x, cursor_y b') blank) b)
            (\<lambda>b1. if func = CHR ''K'' then Returned b1
                   else for_each (range_py starty endy)
                          (\<lambda>y b2. for_each (range_py 0 (width b2))
                                     (\<lambda>x b3. setitem b3 (x, y) blank) b2) b1))"

subsection \<open>SGR\<close>

definition is_digit :: "char \<Rightarrow> bool" where
  "is_digit ch \<longleftrightarrow> (48::nat) \<le> of_char ch \<and> of_char ch \<le> (57::nat)"

text \<open>
  \<open>re.findall(r'(\d+);?', sequence)\<close>: the maximal runs of digits of \<open>sequence\<close>, left to
  right (the optional semicolon after a run is no digit; every other character is skipped).
\<close>

function findall_digits :: "string \<Rightarrow> string list" where
  "findall_digits [] = []"
| "findall_digits (ch # cs) =
     (if is_digit ch
      then (ch # takeWhile is_digit cs) # findall_digits (dropWhile is_digit cs)
      else findall_digits cs)"
  by pat_completeness auto
termination
  by (relation "measure length") (auto simp: less_Suc_eq_le length_dropWhile_le)

text \<open>\<open>int(part)\<close> on a run of decimal digits.\<close>

definition int_of_digits :: "string \<Rightarrow> int" where
  "int_of_digits ds = foldl (\<lambda>acc ch. 10 * acc + (int (of_char ch) - 48)) 0 ds"

text \<open>
  The \<open>while i < len(parts)\<close> loop of \<open>writeSgr\<close>; each branch ends with the \<open>i += 1\<close>
  at the bottom of the loop. \<open>parts[i+1]\<close> and \<open>parts[i+3]\<close> raise IndexError beyond
  the end of the list.
\<close>

function sgr_loop :: "int list \<Rightarrow> nat \<Rightarrow> DisplayBuffer \<Rightarrow> outcome" where
  "sgr_loop parts i b =
     (if i < length parts then
        (if parts ! i = 0 then sgr_loop parts (i + 1) (b\<lparr>color := None\<rparr>)
         else if parts ! i = 1 then sgr_loop parts (i + 1) b
         else if parts ! i = 4 then sgr_loop parts (i + 1) b
         else if parts ! i = 7 then sgr_loop parts (i + 1) b
         else if parts ! i = 22 then sgr_loop parts (i + 1) (b\<lparr>color := None\<rparr>)
         else if parts ! i = 24 then sgr_loop parts (i + 1) b
         else if parts ! i = 27 then sgr_loop parts (i + 1) b
         else if parts ! i \<ge> 30 \<and> parts ! i \<le> 37 then
           sgr_loop parts (i + 1) (b\<lparr>color := Some (Indexed (parts ! i - 30))\<rparr>)
         else if parts ! i = 38 then
           (if length parts \<ge> i + 1 \<and> \<not> i + 1 < length parts then Raised IndexError b
            else if length parts \<ge> i + 1 \<and> parts ! (i + 1) = 5 then
              sgr_loop parts (i + 1 + 1) (b\<lparr>color := Some (Indexed (parts ! (i + 1)))\<rparr>)
            else if length parts \<ge> i + 3 then
              (if i + 3 < length parts then
                 sgr_loop parts (i + 3 + 1)
                   (b\<lparr>color := Some (Rgb (parts ! (i + 1)) (parts ! (i + 2)) (parts ! (i + 3)))\<rparr>)
               else Raised IndexError b)
            else sgr_loop parts (i + 1) b)
         else if parts ! i = 39 then sgr_loop parts (i + 1) (b\<lparr>color := None\<rparr>)
         else if parts ! i \<ge> 40 \<and> parts ! i \<le> 47 then sgr_loop parts (i + 1) b
         else if parts ! i = 48 then sgr_loop parts (i + 1) b
         else sgr_loop parts (i + 1) b)
      else Returned b)"
  by pat_completeness auto
termination
  by (relation "measure (\<lambda>(parts, i, b). length parts - i)") auto

declare sgr_loop.simps [simp del]

definition writeSgr :: "DisplayBuffer \<Rightarrow> string \<Rightarrow> outcome" where
  "writeSgr b sequence =
     (if sequence = ''0'' \<or> sequence = [] then Returned (b\<lparr>color := None\<rparr>)
      else sgr_loop (map int_of_digits (findall_digits sequence)) 0 b)"

subsection \<open>CSI dispatch\<close>

text \<open>\<open>sequence[-1]\<close> raises IndexError on the empty string.\<close>

definition writeCsi :: "DisplayBuffer \<Rightarrow> string \<Rightarrow> outcome" where
  "writeCsi b sequence =
     (if sequence = [] then Raised IndexError b
      else
        (let func = last sequence; sequence' = butlast sequence
         in if func = CHR ''m'' then writeSgr b sequence'
            else if func = CHR ''J'' \<or> func = CHR ''K'' then erase b func sequence'
            else Returned b))"


subsection \<open>The tokenizer\<close>

abbreviation ESC :: char where
  "ESC \<equiv> CHR 0x1B"

abbreviation BEL :: char where
  "BEL \<equiv> CHR 0x07"

definition in_class :: "nat \<Rightarrow> nat \<Rightarrow> char \<Rightarrow> bool" where
  "in_class lo hi ch \<longleftrightarrow> lo \<le> of_char ch \<and> of_char ch \<le> hi"

text \<open>
  What \<open>re.match\<close> finds at the start of \<open>data\<close> for each of the four patterns:
  \<open>group(0)\<close>, and for a CSI sequence \<open>group(2)\<close> as well. Each pattern is an introducer
  followed by greedy runs over character classes that exclude the character that must
  follow them, so backtracking never finds a match that the greedy run misses.
\<close>

text \<open>\<open>OSC_regex = (\x1b]|\x9d)[^\x07]*\x07\<close>\<close>

definition match_OSC :: "string \<Rightarrow> string option" where
  "match_OSC data =
     (case (if take 2 data = [ESC, CHR '']''] then Some (2::nat)
            else if take 1 data = [CHR 0x9D] then Some 1 else None) of
        None \<Rightarrow> None
      | Some n \<Rightarrow>
          (let body = takeWhile (\<lambda>ch. ch \<noteq> BEL) (drop n data)
           in if length body < length (drop n data)
              then Some (take (n + length body + 1) data) else None))"

text \<open>\<open>CSI_regex = (\x1b\[|\x9b)([\x30-\x3f]*[\x20-\x2f]*[\x40-\x7e])\<close>\<close>

definition match_CSI :: "string \<Rightarrow> (string \<times> string) option" where
  "match_CSI data =
     (case (if take 2 data = [ESC, CHR ''[''] then Some (2::nat)
            else if take 1 data = [CHR 0x9B] then Some 1 else None) of
        None \<Rightarrow> None
      | Some n \<Rightarrow>
          (let params = takeWhile (in_class 0x30 0x3F) (drop n data);
               rest = dropWhile (in_class 0x30 0x3F) (drop n data);
               inter = takeWhile (in_class 0x20 0x2F) rest
           in case dropWhile (in_class 0x20 0x2F) rest of
                [] \<Rightarrow> None
              | f # _ \<Rightarrow>
                  if in_class 0x40 0x7E f
                  then Some (take n data @ params @ inter @ [f], params @ inter @ [f])
                  else None))"

text \<open>\<open>C0_regex = \x1b[\x00-\x7f]\<close>\<close>

definition match_C0 :: "string \<Rightarrow> string option" where
  "match_C0 data =
     (case data of
        e # ch # _ \<Rightarrow> if e = ESC \<and> in_class 0x00 0x7F ch then Some [e, ch] else None
      | _ \<Rightarrow> None)"

text \<open>\<open>text_regex = [\x20-\x7e]+\<close>\<close>

definition match_text :: "string \<Rightarrow> string option" where
  "match_text data =
     (let run = takeWhile (in_class 0x20 0x7E) data
      in if run = [] then None else Some run)"

lemma match_OSC_nonempty: "match_OSC data = Some g \<Longrightarrow> g \<noteq> []"
  by (cases data) (auto simp: match_OSC_def Let_def split: if_splits)

lemma match_CSI_nonempty: "match_CSI data = Some (g, g2) \<Longrightarrow> g \<noteq> []"
  by (auto simp: match_CSI_def Let_def split: if_splits list.splits)

lemma match_C0_nonempty: "match_C0 data = Some g \<Longrightarrow> g \<noteq> []"
  by (auto simp: match_C0_def split: if_splits list.splits)

lemma match_text_nonempty: "match_text data = Some g \<Longrightarrow> g \<noteq> []"
  by (auto simp: match_text_def Let_def split: if_splits)

text \<open>
  The loop of \<open>write\<close>. Every pass drops a non-empty prefix of \<open>data\<close>, which is why it
  ends.
\<close>

function write_py :: "DisplayBuffer \<Rightarrow> string \<Rightarrow> outcome" where
  "write_py b data =
     (if length data > 0 then
        (case match_OSC data of
           Some g \<Rightarrow> write_py b (drop (length g) data)
         | None \<Rightarrow>
        (case match_CSI data of
           Some (g, g2) \<Rightarrow>
             (case writeCsi b g2 of
                Raised e b' \<Rightarrow> Raised e b'
              | Returned b' \<Rightarrow> write_py b' (drop (length g) data))
         | None \<Rightarrow>
        (case match_C0 data of
           Some g \<Rightarrow> write_py b (drop (length g) data)
         | None \<Rightarrow>
        (case match_text data of
           Some g \<Rightarrow>
             (case writeText b g of
                Raised e b' \<Rightarrow> Raised e b'
              | Returned b' \<Rightarrow> write_py b' (drop (length g) data))
         | None \<Rightarrow>
        (case (if hd data = CHR 0x08 then writeBackspace b
               else if hd data = CHR 0x0D then writeCR b
               else if hd data = CHR 0x0A then writeLF b
               else Returned b) of
           Raised e b' \<Rightarrow> Raised e b'
         | Returned b' \<Rightarrow> write_py b' (tl data))))))
      else Returned b)"
  by pat_completeness auto
termination
  by (relation "measure (\<lambda>(b, data). length data)")
     (auto dest: match_OSC_nonempty match_CSI_nonempty match_C0_nonempty match_text_nonempty)

declare write_py.simps [simp del]

text \<open>The chunks of a recording, fed to \<open>write\<close> one after the other as \<open>main\<close> does.\<close>

definition write_all :: "DisplayBuffer \<Rightarrow> string list \<Rightarrow> outcome" where
  "write_all b chunks = for_each chunks (\<lambda>chunk b'. write_py b' chunk) b"

subsection \<open>Rendering\<close>

text \<open>
  The renderer is a class of five static methods that print; \<open>render\<close> is modelled by the
  list of the calls it makes, in order.
\<close>

datatype call =
    setAnsiColor int
  | setRgbColor int int int
  | restoreColor
  | writeCharacter char
  | writeNewline

definition color_call :: "color option \<Rightarrow> call" where
  "color_call col =
     (case col of
        None \<Rightarrow> restoreColor
      | Some (Indexed n) \<Rightarrow> setAnsiColor n
      | Some (Rgb r g bl) \<Rightarrow> setRgbColor r g bl)"

definition render_cell :: "color option \<times> call list \<Rightarrow> Cell \<Rightarrow> color option \<times> call list" where
  "render_cell st cell =
     (case st of (prevcolor, out) \<Rightarrow>
        if cell_color cell \<noteq> prevcolor
        then (cell_color cell, out @ [color_call (cell_color cell), writeCharacter (cell_c cell)])
        else (prevcolor, out @ [writeCharacter (cell_c cell)]))"

definition render_row :: "color option \<times> call list \<Rightarrow> Cell list \<Rightarrow> color option \<times> call list" where
  "render_row st row =
     (case foldl render_cell st row of (prevcolor, out) \<Rightarrow> (prevcolor, out @ [writeNewline]))"

definition render :: "DisplayBuffer \<Rightarrow> call list" where
  "render b = snd (foldl render_row (None, []) (contents b))"


section \<open>Properties\<close>

subsection \<open>The invariants of the buffer\<close>

text \<open>
  The grid has \<open>height\<close> rows of \<open>width\<close> cells each, both positive; the cursor lies inside
  the grid. \<open>cell_at b x y\<close> is the cell in column \<open>x\<close> of row \<open>y\<close>, and
  \<open>blanked b S b'\<close> says that \<open>b'\<close> is \<open>b\<close> with exactly the cells at the positions of
  \<open>S\<close> set to a space in the current colour of \<open>b\<close>.
\<close>

definition grid_ok :: "DisplayBuffer \<Rightarrow> bool" where
  "grid_ok b \<longleftrightarrow>
     0 < width b \<and> 0 < height b \<and> int (length (contents b)) = height b \<and>
     (\<forall>row \<in> set (contents b). int (length row) = width b)"

definition cursor_ok :: "DisplayBuffer \<Rightarrow> bool" where
  "cursor_ok b \<longleftrightarrow>
     0 \<le> cursor_x b \<and> cursor_x b < width b \<and> 0 \<le> cursor_y b \<and> cursor_y b < height b"

definition cell_at :: "DisplayBuffer \<Rightarrow> int \<Rightarrow> int \<Rightarrow> Cell" where
  "cell_at b x y = contents b ! nat y ! nat x"

definition blanked :: "DisplayBuffer \<Rightarrow> (int \<times> int) set \<Rightarrow> DisplayBuffer \<Rightarrow> bool" where
  "blanked b S b' \<longleftrightarrow>
     grid_ok b' \<and> width b' = width b \<and> height b' = height b \<and>
     cursor_x b' = cursor_x b \<and> cursor_y b' = cursor_y b \<and> color b' = color b \<and>
     (\<forall>x y. 0 \<le> x \<and> x < width b \<and> 0 \<le> y \<and> y < height b \<longrightarrow>
        cell_at b' x y =
          (if (x, y) \<in> S then \<lparr>cell_c = blank, cell_color = color b\<rparr> else cell_at b x y))"

text \<open>
  \<open>buffer_inv w h b\<close>: the buffer has the dimensions it was constructed with and both
  invariants hold. \<open>erased b func sequence\<close> is the set of positions that the two loops
  of \<open>erase\<close> visit: the columns from \<open>startx\<close> up to \<open>endx - 1\<close> of the cursor's row
  and, unless the final byte is \<open>K\<close>, every column of the rows from \<open>starty\<close> up to
  \<open>endy - 1\<close>.
\<close>

definition buffer_inv :: "int \<Rightarrow> int \<Rightarrow> DisplayBuffer \<Rightarrow> bool" where
  "buffer_inv w h b \<longleftrightarrow> width b = w \<and> height b = h \<and> grid_ok b \<and> cursor_ok b"

definition erased :: "DisplayBuffer \<Rightarrow> char \<Rightarrow> string \<Rightarrow> (int \<times> int) set" where
  "erased b func sequence =
     (case erase_bounds b sequence of
        None \<Rightarrow> {}
      | Some (startx, endx, starty, endy) \<Rightarrow>
          {(x, y). y = cursor_y b \<and> startx \<le> x \<and> x < endx} \<union>
          (if func = CHR ''K'' then {}
           else {(x, y). starty \<le> y \<and> y < endy \<and> 0 \<le> x \<and> x < width b}))"

text \<open>
  The number of times the colour changes along a list of colours, starting from
  \<open>prev\<close>, and the predicate that picks the colour-setting calls of the renderer.
\<close>

fun transitions :: "color option \<Rightarrow> color option list \<Rightarrow> nat" where
  "transitions prev [] = 0"
| "transitions prev (col # cols) = (if col \<noteq> prev then 1 else 0) + transitions col cols"

fun is_color_call :: "call \<Rightarrow> bool" where
  "is_color_call (setAnsiColor n) = True"
| "is_color_call (setRgbColor r g bl) = True"
| "is_color_call restoreColor = True"
| "is_color_call (writeCharacter ch) = False"
| "is_color_call writeNewline = False"

subsection \<open>Cells written through \<open>__setitem__\<close>\<close>

lemma cell_update:
  "cl\<lparr>cell_c := ch, cell_color := col\<rparr> = \<lparr>cell_c = ch, cell_color = col\<rparr>"
  by (cases cl) simp

lemma grid_ok_row:
  assumes "grid_ok b" "0 \<le> y" "y < height b"
  shows "int (length (contents b ! nat y)) = width b"
proof -
  from assms have "nat y < length (contents b)" by (simp add: grid_ok_def nat_less_iff)
  then have "contents b ! nat y \<in> set (contents b)" by simp
  with assms(1) show ?thesis by (simp add: grid_ok_def)
qed

lemma setitem_in_range:
  assumes "grid_ok b" "0 \<le> x" "x < width b" "0 \<le> y" "y < height b"
  shows "setitem b (x, y) ch =
           Returned (b\<lparr>contents := (contents b)
             [nat y := (contents b ! nat y)[nat x := \<lparr>cell_c = ch, cell_color = color b\<rparr>]]\<rparr>)"
proof -
  from assms have iy: "index_py (contents b) y = Some (nat y)"
    by (simp add: index_py_def grid_ok_def)
  from assms have "int (length (contents b ! nat y)) = width b"
    by (simp add: grid_ok_row)
  with assms have ix: "index_py (contents b ! nat y) x = Some (nat x)"
    by (simp add: index_py_def)
  show ?thesis
    by (simp add: setitem_def iy ix cell_update)
qed

lemma index_py_less: "index_py xs i = Some j \<Longrightarrow> j < length xs"
  by (auto simp: index_py_def Let_def split: if_splits)

lemma setitem_grid_ok:
  assumes "grid_ok b"
  shows "grid_ok (state_of (setitem b pos ch))"
proof (cases "setitem b pos ch")
  case (Raised e b')
  then have "b' = b"
    by (auto simp: setitem_def split: prod.splits option.splits)
  with Raised assms show ?thesis by simp
next
  case (Returned b')
  then obtain j k cl where j: "j < length (contents b)"
    and b': "b' = b\<lparr>contents := (contents b)[j := (contents b ! j)[k := cl]]\<rparr>"
    by (auto simp: setitem_def split: prod.splits option.splits dest: index_py_less)
  have "\<forall>row \<in> set ((contents b)[j := (contents b ! j)[k := cl]]). int (length row) = width b"
  proof
    fix row assume "row \<in> set ((contents b)[j := (contents b ! j)[k := cl]])"
    then have "row = (contents b ! j)[k := cl] \<or> row \<in> set (contents b)"
      using set_update_subset_insert by fastforce
    moreover from j have "contents b ! j \<in> set (contents b)" by simp
    ultimately show "int (length row) = width b"
      using assms by (auto simp: grid_ok_def)
  qed
  with assms Returned b' show ?thesis by (simp add: grid_ok_def)
qed

lemma blanked_refl: "grid_ok b \<Longrightarrow> blanked b {} b"
  by (simp add: blanked_def)

lemma blanked_setitem:
  assumes "blanked b S b1" "0 \<le> x" "x < width b" "0 \<le> y" "y < height b"
  shows "\<exists>b2. setitem b1 (x, y) blank = Returned b2 \<and> blanked b (insert (x, y) S) b2"
proof -
  from assms(1) have g1: "grid_ok b1" and w1: "width b1 = width b" and h1: "height b1 = height b"
    and c1: "color b1 = color b"
    by (simp_all add: blanked_def)
  let ?b2 = "b1\<lparr>contents := (contents b1)
             [nat y := (contents b1 ! nat y)[nat x := \<lparr>cell_c = blank, cell_color = color b1\<rparr>]]\<rparr>"
  have eq: "setitem b1 (x, y) blank = Returned ?b2"
    using g1 assms(2-5) w1 h1 by (intro setitem_in_range) simp_all
  have g2: "grid_ok ?b2"
    using setitem_grid_ok [OF g1, of "(x, y)" blank] eq by simp
  have cells: "cell_at ?b2 x' y' =
      (if (x', y') \<in> insert (x, y) S then \<lparr>cell_c = blank, cell_color = color b\<rparr> else cell_at b x' y')"
    if "0 \<le> x'" "x' < width b" "0 \<le> y'" "y' < height b" for x' y'
  proof -
    have old: "cell_at b1 x' y' =
      (if (x', y') \<in> S then \<lparr>cell_c = blank, cell_color = color b\<rparr> else cell_at b x' y')"
      using assms(1) that by (simp add: blanked_def)
    have ly: "nat y < length (contents b1)"
      using g1 assms(4,5) h1 by (simp add: grid_ok_def nat_less_iff)
    have lx: "nat x < length (contents b1 ! nat y)"
      using grid_ok_row [OF g1, of y] assms(2-5) w1 h1 by simp
    show ?thesis
    proof (cases "y' = y")
      case True
      show ?thesis
      proof (cases "x' = x")
        case True
        with \<open>y' = y\<close> ly lx c1 show ?thesis by (simp add: cell_at_def)
      next
        case False
        with that assms(2) have "nat x' \<noteq> nat x" by simp
        with \<open>y' = y\<close> False ly old show ?thesis by (simp add: cell_at_def)
      qed
    next
      case False
      with that assms(4) have "nat y' \<noteq> nat y" by simp
      with False old show ?thesis by (simp add: cell_at_def)
    qed
  qed
  have "blanked b (insert (x, y) S) ?b2"
    unfolding blanked_def using g2 assms(1) cells by (simp add: blanked_def)
  with eq show ?thesis by blast
qed

lemma blanked_cols:
  assumes "blanked b S b1"
    and "\<forall>x \<in> set xs. 0 \<le> x \<and> x < width b"
    and "0 \<le> y" "y < height b"
    and Y: "\<And>S' b2. blanked b S' b2 \<Longrightarrow> Y b2 = y"
  shows "\<exists>b2. for_each xs (\<lambda>x b'. setitem b' (x, Y b') blank) b1 = Returned b2 \<and>
              blanked b (S \<union> (\<lambda>x. (x, y)) ` set xs) b2"
  using assms(1,2)
proof (induction xs arbitrary: S b1)
  case Nil
  then show ?case by simp
next
  case (Cons x xs)
  from Cons.prems have "0 \<le> x" "x < width b" by simp_all
  from blanked_setitem [OF Cons.prems(1) this assms(3,4)]
  obtain b2 where s: "setitem b1 (x, y) blank = Returned b2"
    and bl: "blanked b (insert (x, y) S) b2" by blast
  from Cons.prems(2) have "\<forall>x \<in> set xs. 0 \<le> x \<and> x < width b" by simp
  from Cons.IH [OF bl this]
  obtain b3 where l: "for_each xs (\<lambda>x b'. setitem b' (x, Y b') blank) b2 = Returned b3"
    and bl3: "blanked b (insert (x, y) S \<union> (\<lambda>x. (x, y)) ` set xs) b3" by blast
  have "Y b1 = y" using Cons.prems(1) by (rule Y)
  with s l have "for_each (x # xs) (\<lambda>x b'. setitem b' (x, Y b') blank) b1 = Returned b3"
    by simp
  moreover have "insert (x, y) S \<union> (\<lambda>x. (x, y)) ` set xs = S \<union> (\<lambda>x. (x, y)) ` set (x # xs)"
    by auto
  ultimately show ?case using bl3 by auto
qed

lemma set_range_py: "set (range_py a e) = {x. a \<le> x \<and> x < e}"
  by (auto simp: range_py_def)

lemma blanked_rows:
  assumes "blanked b S b1"
    and "\<forall>y \<in> set ys. 0 \<le> y \<and> y < height b"
  shows "\<exists>b2. for_each ys (\<lambda>y b2. for_each (range_py 0 (width b2))
                                      (\<lambda>x b3. setitem b3 (x, y) blank) b2) b1 = Returned b2 \<and>
              blanked b (S \<union> {(x, y). y \<in> set ys \<and> 0 \<le> x \<and> x < width b}) b2"
  using assms
proof (induction ys arbitrary: S b1)
  case Nil
  then show ?case by simp
next
  case (Cons y ys)
  from Cons.prems have y: "0 \<le> y" "y < height b" by simp_all
  have w1: "width b1 = width b" using Cons.prems(1) by (simp add: blanked_def)
  have "\<forall>x \<in> set (range_py 0 (width b)). 0 \<le> x \<and> x < width b"
    by (simp add: set_range_py)
  from blanked_cols [OF Cons.prems(1) this y, of "\<lambda>_. y"]
  obtain b2 where r: "for_each (range_py 0 (width b)) (\<lambda>x b3. setitem b3 (x, y) blank) b1 = Returned b2"
    and bl: "blanked b (S \<union> (\<lambda>x. (x, y)) ` set (range_py 0 (width b))) b2" by blast
  from Cons.prems(2) have "\<forall>y \<in> set ys. 0 \<le> y \<and> y < height b" by simp
  from Cons.IH [OF bl this]
  obtain b3 where l: "for_each ys (\<lambda>y b2. for_each (range_py 0 (width b2))
                                      (\<lambda>x b3. setitem b3 (x, y) blank) b2) b2 = Returned b3"
    and bl3: "blanked b (S \<union> (\<lambda>x. (x, y)) ` set (range_py 0 (width b)) \<union>
                 {(x, y). y \<in> set ys \<and> 0 \<le> x \<and> x < width b}) b3" by blast
  have "S \<union> (\<lambda>x. (x, y)) ` set (range_py 0 (width b)) \<union>
                 {(x, y). y \<in> set ys \<and> 0 \<le> x \<and> x < width b} =
        S \<union> {(x, y'). y' \<in> set (y # ys) \<and> 0 \<le> x \<and> x < width b}"
    by (auto simp: set_range_py)
  with bl3 r l w1 show ?case by simp
qed

subsection \<open>Scrolling\<close>

lemma blanked_row_eq:
  assumes g0: "grid_ok b0" and y: "0 \<le> y" "y < height b0"
    and bl: "blanked b0 ((\<lambda>x. (x, y)) ` {x. 0 \<le> x \<and> x < width b0}) b1"
  shows "contents b1 =
    (contents b0)[nat y := replicate (nat (width b0)) \<lparr>cell_c = blank, cell_color = color b0\<rparr>]"
proof (rule nth_equalityI)
  from bl have g1: "grid_ok b1" and w: "width b1 = width b0" and h: "height b1 = height b0"
    by (simp_all add: blanked_def)
  from g0 g1 h show len: "length (contents b1) = length ((contents b0)
      [nat y := replicate (nat (width b0)) \<lparr>cell_c = blank, cell_color = color b0\<rparr>])"
    by (simp add: grid_ok_def)
  fix j assume j: "j < length (contents b1)"
  with g1 h have j0: "int j < height b0" by (simp add: grid_ok_def)
  with g0 have j0': "j < length (contents b0)" by (simp add: grid_ok_def)
  have l1: "int (length (contents b1 ! j)) = width b0"
    using grid_ok_row [OF g1, of "int j"] j0 h w by simp
  have l0: "int (length (contents b0 ! j)) = width b0"
    using grid_ok_row [OF g0, of "int j"] j0 by simp
  have cells: "contents b1 ! j ! k =
      (if int j = y then \<lparr>cell_c = blank, cell_color = color b0\<rparr> else contents b0 ! j ! k)"
    if "int k < width b0" for k
  proof -
    from bl that j0 have "cell_at b1 (int k) (int j) =
       (if (int k, int j) \<in> (\<lambda>x. (x, y)) ` {x. 0 \<le> x \<and> x < width b0}
        then \<lparr>cell_c = blank, cell_color = color b0\<rparr> else cell_at b0 (int k) (int j))"
      by (simp add: blanked_def)
    moreover have "(int k, int j) \<in> (\<lambda>x. (x, y)) ` {x. 0 \<le> x \<and> x < width b0} \<longleftrightarrow> int j = y"
      using that by auto
    ultimately show ?thesis by (simp add: cell_at_def)
  qed
  show "contents b1 ! j = (contents b0)
      [nat y := replicate (nat (width b0)) \<lparr>cell_c = blank, cell_color = color b0\<rparr>] ! j"
  proof (cases "int j = y")
    case True
    then have ny: "nat y = j" by simp
    have "contents b1 ! j = replicate (nat (width b0)) \<lparr>cell_c = blank, cell_color = color b0\<rparr>"
    proof (rule nth_equalityI)
      show "length (contents b1 ! j) =
        length (replicate (nat (width b0)) \<lparr>cell_c = blank, cell_color = color b0\<rparr>)"
        using l1 by simp
      fix k assume "k < length (contents b1 ! j)"
      with l1 have k: "int k < width b0" by simp
      then have "k < nat (width b0)" by simp
      with cells [OF k] True
      show "contents b1 ! j ! k =
        replicate (nat (width b0)) \<lparr>cell_c = blank, cell_color = color b0\<rparr> ! k"
        by simp
    qed
    with ny j0' show ?thesis by simp
  next
    case False
    then have ny: "nat y \<noteq> j" using y by auto
    have "contents b1 ! j = contents b0 ! j"
    proof (rule nth_equalityI)
      show "length (contents b1 ! j) = length (contents b0 ! j)"
        using l1 l0 by simp
      fix k assume "k < length (contents b1 ! j)"
      with l1 have k: "int k < width b0" by simp
      with cells [OF k] False show "contents b1 ! j ! k = contents b0 ! j ! k" by simp
    qed
    with ny show ?thesis by simp
  qed
qed

lemma scroll_exact:
  assumes "grid_ok b"
  shows "scroll b = Returned (b\<lparr>contents := tl (contents b) @
            [replicate (nat (width b)) \<lparr>cell_c = blank, cell_color = color b\<rparr>],
          cursor_y := cursor_y b - 1\<rparr>)"
proof -
  from assms obtain row rest where c: "contents b = row # rest"
    by (cases "contents b") (auto simp: grid_ok_def)
  let ?b0 = "b\<lparr>contents := rest @ [row]\<rparr>"
  let ?r = "replicate (nat (width b)) \<lparr>cell_c = blank, cell_color = color b\<rparr>"
  from assms c have g0: "grid_ok ?b0" by (auto simp: grid_ok_def)
  have y: "0 \<le> height ?b0 - 1" "height ?b0 - 1 < height ?b0"
    using assms by (simp_all add: grid_ok_def)
  have xs: "\<forall>x \<in> set (range_py 0 (width b)). 0 \<le> x \<and> x < width ?b0"
    by (simp add: set_range_py)
  have "\<exists>b1. for_each (range_py 0 (width b)) (\<lambda>x b'. setitem b' (x, height b' - 1) blank) ?b0 =
               Returned b1 \<and>
             blanked ?b0 ({} \<union> (\<lambda>x. (x, height ?b0 - 1)) ` set (range_py 0 (width b))) b1"
    using blanked_refl [OF g0] xs y by (rule blanked_cols) (simp add: blanked_def)
  then obtain b1 where
    l: "for_each (range_py 0 (width b)) (\<lambda>x b'. setitem b' (x, height b' - 1) blank) ?b0 = Returned b1"
    and bl: "blanked ?b0 ({} \<union> (\<lambda>x. (x, height ?b0 - 1)) ` set (range_py 0 (width b))) b1"
    by blast
  from bl have bl': "blanked ?b0 ((\<lambda>x. (x, height ?b0 - 1)) ` {x. 0 \<le> x \<and> x < width ?b0}) b1"
    by (simp add: set_range_py)
  have "nat (height b - 1) = length rest"
    using assms c by (simp add: grid_ok_def) linarith
  with blanked_row_eq [OF g0 y bl'] have c1: "contents b1 = rest @ [?r]"
    by simp
  from bl have "b1 = ?b0\<lparr>contents := contents b1\<rparr>"
    by (simp add: blanked_def)
  with c1 have "b1 = b\<lparr>contents := rest @ [?r]\<rparr>" by simp
  with l c show ?thesis by (simp add: scroll_def)
qed

lemma scroll_grid_ok:
  assumes "grid_ok b"
  shows "grid_ok (b\<lparr>contents := tl (contents b) @
            [replicate (nat (width b)) \<lparr>cell_c = blank, cell_color = color b\<rparr>],
          cursor_y := cursor_y b - 1\<rparr>)"
proof -
  from assms obtain row rest where c: "contents b = row # rest"
    by (cases "contents b") (auto simp: grid_ok_def)
  with assms show ?thesis by (auto simp: grid_ok_def)
qed

lemma scroll_loop_exact:
  assumes "grid_ok b" and "k = nat (cursor_y b - height b + 1)"
  shows "scroll_loop b = Returned (b\<lparr>cursor_y := cursor_y b - int k,
           contents := drop k (contents b) @ replicate (min k (nat (height b)))
             (replicate (nat (width b)) \<lparr>cell_c = blank, cell_color = color b\<rparr>)\<rparr>)"
  using assms
proof (induction k arbitrary: b)
  case 0
  then have "\<not> cursor_y b \<ge> height b" by simp
  then show ?case by (simp add: scroll_loop.simps [of b])
next
  case (Suc k)
  let ?r = "replicate (nat (width b)) \<lparr>cell_c = blank, cell_color = color b\<rparr>"
  let ?b1 = "b\<lparr>contents := tl (contents b) @ [?r], cursor_y := cursor_y b - 1\<rparr>"
  from Suc.prems have ge: "cursor_y b \<ge> height b" by simp
  have g1: "grid_ok ?b1" using Suc.prems(1) by (rule scroll_grid_ok)
  have k: "k = nat (cursor_y ?b1 - height ?b1 + 1)" using Suc.prems(2) by simp
  have len: "length (contents b) = nat (height b)" "0 < length (contents b)"
    using Suc.prems(1) by (auto simp: grid_ok_def)
  have lists: "drop k (tl (contents b) @ [?r]) @ replicate (min k (nat (height b))) ?r =
      drop (Suc k) (contents b) @ replicate (min (Suc k) (nat (height b))) ?r"
  proof (cases "k < length (contents b)")
    case True
    then have "drop k (tl (contents b) @ [?r]) = drop (Suc k) (contents b) @ [?r]"
      by (simp add: drop_Suc)
    moreover from True len have "min k (nat (height b)) = k" "min (Suc k) (nat (height b)) = Suc k"
      by simp_all
    ultimately show ?thesis by (simp add: replicate_append_same)
  next
    case False
    with len show ?thesis by simp
  qed
  have "scroll_loop b = scroll_loop ?b1"
    using ge scroll_exact [OF Suc.prems(1)] by (simp add: scroll_loop.simps [of b])
  also have "\<dots> = Returned (?b1\<lparr>cursor_y := cursor_y ?b1 - int k,
           contents := drop k (contents ?b1) @ replicate (min k (nat (height ?b1)))
             (replicate (nat (width ?b1)) \<lparr>cell_c = blank, cell_color = color ?b1\<rparr>)\<rparr>)"
    using g1 k by (rule Suc.IH)
  finally show ?case using lists by simp
qed

lemma moveCursor_exact:
  assumes "grid_ok b"
  shows "moveCursor b dx dy =
    (let y' = cursor_y b + (if cursor_x b + dx \<ge> width b then dy + 1 else dy);
         k = nat (y' - height b + 1)
     in Returned (b\<lparr>cursor_x := (if cursor_x b + dx \<ge> width b \<or> cursor_x b + dx < 0 then 0
                                     else cursor_x b + dx),
          cursor_y := y' - int k,
          contents := drop k (contents b) @ replicate (min k (nat (height b)))
             (replicate (nat (width b)) \<lparr>cell_c = blank, cell_color = color b\<rparr>)\<rparr>))"
proof -
  let ?x = "if cursor_x b + dx \<ge> width b \<or> cursor_x b + dx < 0 then 0 else cursor_x b + dx"
  let ?y = "cursor_y b + (if cursor_x b + dx \<ge> width b then dy + 1 else dy)"
  let ?b4 = "b\<lparr>cursor_x := ?x, cursor_y := ?y\<rparr>"
  have m: "moveCursor b dx dy = scroll_loop ?b4"
    by (simp add: moveCursor_def Let_def)
  from assms have g4: "grid_ok ?b4" by (simp add: grid_ok_def)
  show ?thesis
    unfolding m using scroll_loop_exact [OF g4 refl] by (simp add: Let_def)
qed

subsection \<open>Preservation of the invariants\<close>

lemma and_then_preserves:
  assumes "P (state_of r)" and "\<And>b. P b \<Longrightarrow> P (state_of (f b))"
  shows "P (state_of (and_then r f))"
  using assms by (cases r) auto

lemma buffer_inv_color [simp]: "buffer_inv w h (b\<lparr>color := col\<rparr>) = buffer_inv w h b"
  by (simp add: buffer_inv_def grid_ok_def cursor_ok_def)

lemma setitem_inv: "buffer_inv w h b \<Longrightarrow> buffer_inv w h (state_of (setitem b pos ch))"
  by (simp add: buffer_inv_def setitem_fields setitem_grid_ok cursor_ok_def)

lemma scrolled_grid_ok:
  assumes "grid_ok b"
  shows "grid_ok (b\<lparr>cursor_x := x, cursor_y := y,
           contents := drop k (contents b) @ replicate (min k (nat (height b)))
             (replicate (nat (width b)) cl)\<rparr>)"
proof -
  from assms have len: "length (contents b) = nat (height b)" by (auto simp: grid_ok_def)
  have "length (drop k (contents b) @ replicate (min k (nat (height b)))
             (replicate (nat (width b)) cl)) = nat (height b)"
    using len by simp
  moreover have "\<forall>row \<in> set (drop k (contents b) @ replicate (min k (nat (height b)))
             (replicate (nat (width b)) cl)). int (length row) = width b"
    using assms by (auto simp: grid_ok_def dest: in_set_dropD)
  ultimately show ?thesis using assms by (simp add: grid_ok_def)
qed

lemma moveCursor_inv:
  assumes "buffer_inv w h b" and "0 \<le> dy"
  shows "buffer_inv w h (state_of (moveCursor b dx dy))"
proof -
  from assms(1) have g: "grid_ok b" and c: "cursor_ok b" and wh: "width b = w" "height b = h"
    by (simp_all add: buffer_inv_def)
  let ?y = "cursor_y b + (if cursor_x b + dx \<ge> width b then dy + 1 else dy)"
  let ?k = "nat (?y - height b + 1)"
  let ?x = "if cursor_x b + dx \<ge> width b \<or> cursor_x b + dx < 0 then 0 else cursor_x b + dx"
  let ?b' = "b\<lparr>cursor_x := ?x, cursor_y := ?y - int ?k,
          contents := drop ?k (contents b) @ replicate (min ?k (nat (height b)))
             (replicate (nat (width b)) \<lparr>cell_c = blank, cell_color = color b\<rparr>)\<rparr>"
  have m: "moveCursor b dx dy = Returned ?b'"
    using moveCursor_exact [OF g, of dx dy] by (simp add: Let_def)
  have g': "grid_ok ?b'" using g by (rule scrolled_grid_ok)
  from g have pos: "0 < width b" "0 < height b" by (simp_all add: grid_ok_def)
  have "0 \<le> ?x \<and> ?x < width b" using pos by auto
  moreover have "0 \<le> ?y" using c assms(2) by (simp add: cursor_ok_def)
  then have "0 \<le> ?y - int ?k \<and> ?y - int ?k < height b" using pos by auto
  ultimately have "cursor_ok ?b'" by (simp add: cursor_ok_def)
  with g' wh show ?thesis unfolding m by (simp add: buffer_inv_def)
qed

lemma writeText_inv: "buffer_inv w h b \<Longrightarrow> buffer_inv w h (state_of (writeText b text))"
  unfolding writeText_def
  by (rule for_each_preserves, rule and_then_preserves) (simp_all add: setitem_inv moveCursor_inv)

lemma writeCR_inv: "buffer_inv w h b \<Longrightarrow> buffer_inv w h (state_of (writeCR b))"
  by (simp add: writeCR_def moveCursor_inv)

lemma writeLF_inv: "buffer_inv w h b \<Longrightarrow> buffer_inv w h (state_of (writeLF b))"
  by (simp add: writeLF_def moveCursor_inv)

lemma writeBackspace_inv: "buffer_inv w h b \<Longrightarrow> buffer_inv w h (state_of (writeBackspace b))"
  unfolding writeBackspace_def
  by (rule and_then_preserves) (simp_all add: setitem_inv moveCursor_inv)

lemma erase_inv:
  assumes "buffer_inv w h b"
  shows "buffer_inv w h (state_of (erase b func sequence))"
proof (cases "erase_bounds b sequence")
  case None
  with assms show ?thesis by (simp add: erase_def)
next
  case (Some bounds)
  obtain startx endx starty endy where "bounds = (startx, endx, starty, endy)"
    by (cases bounds) auto
  with Some have e: "erase b func sequence =
     and_then
       (for_each (range_py startx endx) (\<lambda>x b'. setitem b' (x, cursor_y b') blank) b)
       (\<lambda>b1. if func = CHR ''K'' then Returned b1
              else for_each (range_py starty endy)
                     (\<lambda>y b2. for_each (range_py 0 (width b2))
                                (\<lambda>x b3. setitem b3 (x, y) blank) b2) b1)"
    by (simp add: erase_def)
  have line: "buffer_inv w h (state_of
      (for_each (range_py startx endx) (\<lambda>x b'. setitem b' (x, cursor_y b') blank) b))"
    using assms by (intro for_each_preserves [where P = "buffer_inv w h"]) (simp_all add: setitem_inv)
  have rows: "buffer_inv w h (state_of
      (for_each (range_py starty endy)
         (\<lambda>y b2. for_each (range_py 0 (width b2)) (\<lambda>x b3. setitem b3 (x, y) blank) b2) b1))"
    if "buffer_inv w h b1" for b1
    using that
    by (intro for_each_preserves [where P = "buffer_inv w h"]) (simp_all add: setitem_inv)
  show ?thesis
    unfolding e using line by (rule and_then_preserves) (simp add: rows)
qed

lemma sgr_loop_inv:
  "buffer_inv w h b \<Longrightarrow> buffer_inv w h (state_of (sgr_loop parts i b))"
proof (induction "length parts - i" arbitrary: i b rule: less_induct)
  case less
  show ?case
    using less.prems by (simp add: sgr_loop.simps [of parts i b] less.hyps)
qed

lemma writeSgr_inv: "buffer_inv w h b \<Longrightarrow> buffer_inv w h (state_of (writeSgr b sequence))"
  by (simp add: writeSgr_def sgr_loop_inv)

lemma writeCsi_inv: "buffer_inv w h b \<Longrightarrow> buffer_inv w h (state_of (writeCsi b sequence))"
  by (simp add: writeCsi_def Let_def writeSgr_inv erase_inv)

lemma outcome_case_preserves:
  assumes "P (state_of r)" and "\<And>b'. P b' \<Longrightarrow> P (state_of (k b'))"
  shows "P (state_of (case r of Returned b' \<Rightarrow> k b' | Raised e b' \<Rightarrow> Raised e b'))"
  using assms by (cases r) auto

lemma write_py_inv:
  "buffer_inv w h b \<Longrightarrow> buffer_inv w h (state_of (write_py b data))"
proof (induction "length data" arbitrary: b data rule: less_induct)
  case less
  note inv = less.prems
  show ?case
  proof (cases "data = []")
    case True
    with inv show ?thesis by (subst write_py.simps) simp
  next
    case ne: False
    have rec: "buffer_inv w h (state_of (write_py b' (drop (length g) data)))"
      if "g \<noteq> []" "buffer_inv w h b'" for g :: string and b'
    proof -
      from ne that(1) have "length (drop (length g) data) < length data"
        by (cases g) simp_all
      then show ?thesis using that(2) by (rule less.hyps)
    qed
    have rec_tl: "buffer_inv w h (state_of (write_py b' (tl data)))"
      if "buffer_inv w h b'" for b'
    proof -
      from ne have "length (tl data) < length data" by simp
      then show ?thesis using that by (rule less.hyps)
    qed
    show ?thesis
    proof (cases "match_OSC data")
      case (Some g)
      then have "g \<noteq> []" by (rule match_OSC_nonempty)
      with Some ne inv show ?thesis by (simp add: write_py.simps [of b data] rec)
    next
      case osc: None
      show ?thesis
      proof (cases "match_CSI data")
        case (Some p)
        obtain g g2 where p: "p = (g, g2)" by (cases p)
        with Some have g: "g \<noteq> []" by (auto dest: match_CSI_nonempty)
        have "buffer_inv w h (state_of
            (case writeCsi b g2 of Returned b' \<Rightarrow> write_py b' (drop (length g) data)
             | Raised e b' \<Rightarrow> Raised e b'))"
          using writeCsi_inv [OF inv] by (rule outcome_case_preserves) (rule rec [OF g])
        with Some p osc ne show ?thesis by (simp add: write_py.simps [of b data])
      next
        case csi: None
        show ?thesis
        proof (cases "match_C0 data")
          case (Some g)
          then have "g \<noteq> []" by (rule match_C0_nonempty)
          with Some osc csi ne inv show ?thesis by (simp add: write_py.simps [of b data] rec)
        next
          case c0: None
          show ?thesis
          proof (cases "match_text data")
            case (Some g)
            then have g: "g \<noteq> []" by (rule match_text_nonempty)
            have "buffer_inv w h (state_of
                (case writeText b g of Returned b' \<Rightarrow> write_py b' (drop (length g) data)
                 | Raised e b' \<Rightarrow> Raised e b'))"
              using writeText_inv [OF inv] by (rule outcome_case_preserves) (rule rec [OF g])
            with Some osc csi c0 ne show ?thesis by (simp add: write_py.simps [of b data])
          next
            case no_text: None
            let ?ctl = "if hd data = CHR 0x08 then writeBackspace b
               else if hd data = CHR 0x0D then writeCR b
               else if hd data = CHR 0x0A then writeLF b
               else Returned b"
            have ctl: "buffer_inv w h (state_of ?ctl)"
              using inv by (simp add: writeBackspace_inv writeCR_inv writeLF_inv)
            have "buffer_inv w h (state_of
                (case ?ctl of Returned b' \<Rightarrow> write_py b' (tl data)
                 | Raised e b' \<Rightarrow> Raised e b'))"
              using ctl by (rule outcome_case_preserves) (rule rec_tl)
            with osc csi c0 no_text ne show ?thesis
              by (simp only: write_py.simps [of b data] length_greater_0_conv
                    option.case not_False_eq_True if_True)
          qed
        qed
      qed
    qed
  qed
qed

lemma init_inv:
  assumes "0 < w" "0 < h"
  shows "buffer_inv w h (init w h)"
  using assms by (simp add: buffer_inv_def grid_ok_def cursor_ok_def init_def range_py_def)

lemma write_all_inv:
  "buffer_inv w h b \<Longrightarrow> buffer_inv w h (state_of (write_all b chunks))"
  unfolding write_all_def
  by (rule for_each_preserves) (simp_all add: write_py_inv)

lemma length_concat_rows:
  "\<forall>row \<in> set rows. length row = n \<Longrightarrow> length (concat rows) = length rows * n"
  by (induction rows) auto

subsection \<open>The cells an erase blanks\<close>

lemma erase_blanked:
  assumes g: "grid_ok b" and c: "cursor_ok b" and s: "sequence \<in> {[], ''0'', ''1'', ''2''}"
  shows "\<exists>b'. erase b func sequence = Returned b' \<and> blanked b (erased b func sequence) b'"
proof -
  from c s have "\<exists>startx endx starty endy.
      erase_bounds b sequence = Some (startx, endx, starty, endy) \<and>
      0 \<le> startx \<and> endx \<le> width b \<and> 0 \<le> starty \<and> endy \<le> height b"
    by (auto simp: erase_bounds_def cursor_ok_def)
  then obtain startx endx starty endy
    where eb: "erase_bounds b sequence = Some (startx, endx, starty, endy)"
      and bounds: "0 \<le> startx" "endx \<le> width b" "0 \<le> starty" "endy \<le> height b"
    by blast
  from bounds have xs: "\<forall>x \<in> set (range_py startx endx). 0 \<le> x \<and> x < width b"
    by (auto simp: set_range_py)
  from c have cy: "0 \<le> cursor_y b" "cursor_y b < height b" by (simp_all add: cursor_ok_def)
  have "\<exists>b1. for_each (range_py startx endx) (\<lambda>x b'. setitem b' (x, cursor_y b') blank) b =
               Returned b1 \<and>
             blanked b ({} \<union> (\<lambda>x. (x, cursor_y b)) ` set (range_py startx endx)) b1"
    using blanked_refl [OF g] xs cy by (rule blanked_cols) (simp add: blanked_def)
  then obtain b1 where
    l1: "for_each (range_py startx endx) (\<lambda>x b'. setitem b' (x, cursor_y b') blank) b = Returned b1"
    and bl1: "blanked b ({} \<union> (\<lambda>x. (x, cursor_y b)) ` set (range_py startx endx)) b1"
    by blast
  have line: "{} \<union> (\<lambda>x. (x, cursor_y b)) ` set (range_py startx endx) =
      {(x, y). y = cursor_y b \<and> startx \<le> x \<and> x < endx}"
    by (auto simp: set_range_py)
  show ?thesis
  proof (cases "func = CHR ''K''")
    case True
    with l1 eb have "erase b func sequence = Returned b1" by (simp add: erase_def)
    moreover from True eb line have "erased b func sequence =
        {} \<union> (\<lambda>x. (x, cursor_y b)) ` set (range_py startx endx)"
      by (simp add: erased_def)
    ultimately show ?thesis using bl1 by simp
  next
    case False
    from bounds have ys: "\<forall>y \<in> set (range_py starty endy). 0 \<le> y \<and> y < height b"
      by (auto simp: set_range_py)
    from blanked_rows [OF bl1 ys]
    obtain b2 where l2: "for_each (range_py starty endy)
          (\<lambda>y b2. for_each (range_py 0 (width b2)) (\<lambda>x b3. setitem b3 (x, y) blank) b2) b1 =
          Returned b2"
      and bl2: "blanked b ({} \<union> (\<lambda>x. (x, cursor_y b)) ` set (range_py startx endx) \<union>
          {(x, y). y \<in> set (range_py starty endy) \<and> 0 \<le> x \<and> x < width b}) b2"
      by blast
    from l1 l2 eb False have "erase b func sequence = Returned b2" by (simp add: erase_def)
    moreover from False eb have "erased b func sequence =
        {} \<union> (\<lambda>x. (x, cursor_y b)) ` set (range_py startx endx) \<union>
          {(x, y). y \<in> set (range_py starty endy) \<and> 0 \<le> x \<and> x < width b}"
      by (auto simp: erased_def set_range_py)
    ultimately show ?thesis using bl2 by simp
  qed
qed

subsection \<open>The calls of a render pass\<close>

lemma is_color_call_color_call [simp]: "is_color_call (color_call col)"
  by (simp add: color_call_def split: option.splits color.splits)

lemma transitions_append:
  "transitions prev (xs @ ys) = transitions prev xs + transitions (last (prev # xs)) ys"
  by (induction xs arbitrary: prev) auto

lemma render_cell_calls:
  "render_cell (prev, out) cell =
     (cell_color cell,
      out @ (if cell_color cell \<noteq> prev then [color_call (cell_color cell)] else []) @
        [writeCharacter (cell_c cell)])"
  by (simp add: render_cell_def)

lemma foldl_render_cell:
  "\<exists>out'. foldl render_cell (prev, out) row = (last (prev # map cell_color row), out @ out') \<and>
          length (filter is_color_call out') = transitions prev (map cell_color row)"
proof (induction row arbitrary: prev out)
  case Nil
  then show ?case by simp
next
  case (Cons cell row)
  let ?o = "out @ (if cell_color cell \<noteq> prev then [color_call (cell_color cell)] else []) @
        [writeCharacter (cell_c cell)]"
  from Cons.IH [of "cell_color cell" ?o]
  obtain out' where f: "foldl render_cell (cell_color cell, ?o) row =
      (last (cell_color cell # map cell_color row), ?o @ out')"
    and n: "length (filter is_color_call out') = transitions (cell_color cell) (map cell_color row)"
    by blast
  let ?out' = "(if cell_color cell \<noteq> prev then [color_call (cell_color cell)] else []) @
        [writeCharacter (cell_c cell)] @ out'"
  have "foldl render_cell (prev, out) (cell # row) =
      (last (prev # map cell_color (cell # row)), out @ ?out')"
    using f by (simp add: render_cell_calls)
  moreover have "length (filter is_color_call ?out') =
      transitions prev (map cell_color (cell # row))"
    using n by simp
  ultimately show ?case by blast
qed

lemma foldl_render_row:
  "\<exists>out'. foldl render_row (prev, out) rows =
            (last (prev # map cell_color (concat rows)), out @ out') \<and>
          length (filter is_color_call out') = transitions prev (map cell_color (concat rows))"
proof (induction rows arbitrary: prev out)
  case Nil
  then show ?case by simp
next
  case (Cons row rows)
  from foldl_render_cell [of prev out row]
  obtain o1 where f1: "foldl render_cell (prev, out) row =
      (last (prev # map cell_color row), out @ o1)"
    and n1: "length (filter is_color_call o1) = transitions prev (map cell_color row)"
    by blast
  let ?p = "last (prev # map cell_color row)"
  from Cons.IH [of ?p "out @ o1 @ [writeNewline]"]
  obtain o2 where f2: "foldl render_row (?p, out @ o1 @ [writeNewline]) rows =
      (last (?p # map cell_color (concat rows)), out @ o1 @ [writeNewline] @ o2)"
    and n2: "length (filter is_color_call o2) = transitions ?p (map cell_color (concat rows))"
    by auto
  have "foldl render_row (prev, out) (row # rows) =
      (last (prev # map cell_color (concat (row # rows))), out @ (o1 @ [writeNewline] @ o2))"
    using f1 f2 by (simp add: render_row_def last_append)
  moreover have "length (filter is_color_call (o1 @ [writeNewline] @ o2)) =
      transitions prev (map cell_color (concat (row # rows)))"
    using n1 n2 by (simp add: transitions_append)
  ultimately show ?case by blast
qed

section \<open>The claims\<close>

text \<open>
  C1. The sequence \<open>ESC [ 38;5;196 m\<close> followed by \<open>X\<close>, then \<open>ESC [ 0 m\<close> followed by
  \<open>Y\<close>, on a fresh buffer of 3 columns and 1 row: the cell of \<open>X\<close> has the colour
  \<open>Indexed 5\<close> and not \<open>Indexed 196\<close>, the cell of \<open>Y\<close> has no colour. For every \<open>n\<close>,
  code 38 followed by 5 sets the colour to the marker 5 itself (\<open>parts[i+1]\<close>) and skips
  one parameter only, so the loop goes on at the index of \<open>n\<close>, which it reads as a code
  of its own.
\<close>

theorem sgr_indexed_takes_marker:
  "write_py (init 3 1) (ESC # ''[38;5;196mX'' @ ESC # ''[0mY'') =
     Returned \<lparr>width = 3, height = 1, cursor_x = 2, cursor_y = 0, color = None,
       contents = [[\<lparr>cell_c = CHR ''X'', cell_color = Some (Indexed 5)\<rparr>,
                    \<lparr>cell_c = CHR ''Y'', cell_color = None\<rparr>,
                    \<lparr>cell_c = blank, cell_color = None\<rparr>]]\<rparr>
   \<and> sgr_loop [38, 5, n] 0 b = sgr_loop [38, 5, n] 2 (b\<lparr>color := Some (Indexed 5)\<rparr>)"
proof
  show "write_py (init 3 1) (ESC # ''[38;5;196mX'' @ ESC # ''[0mY'') =
     Returned \<lparr>width = 3, height = 1, cursor_x = 2, cursor_y = 0, color = None,
       contents = [[\<lparr>cell_c = CHR ''X'', cell_color = Some (Indexed 5)\<rparr>,
                    \<lparr>cell_c = CHR ''Y'', cell_color = None\<rparr>,
                    \<lparr>cell_c = blank, cell_color = None\<rparr>]]\<rparr>"
    by code_simp
  show "sgr_loop [38, 5, n] 0 b = sgr_loop [38, 5, n] 2 (b\<lparr>color := Some (Indexed 5)\<rparr>)"
    by (subst sgr_loop.simps) (simp add: numeral_2_eq_2)
qed

text \<open>
  C2. The sequence \<open>ESC [ 38;2;10;20;30 m\<close> followed by \<open>Z\<close> on a fresh buffer: the cell
  of \<open>Z\<close> has the colour \<open>Indexed 0\<close> and not \<open>Rgb 10 20 30\<close>. For every \<open>r\<close>, \<open>g\<close> and
  \<open>bl\<close>, code 38 followed by 2 sets the colour to the triple that starts with the marker,
  \<open>Rgb 2 r g\<close>, and the loop goes on at the index of \<open>bl\<close>, which it reads as a code of
  its own (30 sets \<open>Indexed 0\<close>).
\<close>

theorem sgr_truecolor_takes_marker:
  "write_py (init 2 1) (ESC # ''[38;2;10;20;30mZ'') =
     Returned \<lparr>width = 2, height = 1, cursor_x = 1, cursor_y = 0, color = Some (Indexed 0),
       contents = [[\<lparr>cell_c = CHR ''Z'', cell_color = Some (Indexed 0)\<rparr>,
                    \<lparr>cell_c = blank, cell_color = None\<rparr>]]\<rparr>
   \<and> sgr_loop [38, 2, r, g, bl] 0 b =
       sgr_loop [38, 2, r, g, bl] 4 (b\<lparr>color := Some (Rgb 2 r g)\<rparr>)"
proof
  show "write_py (init 2 1) (ESC # ''[38;2;10;20;30mZ'') =
     Returned \<lparr>width = 2, height = 1, cursor_x = 1, cursor_y = 0, color = Some (Indexed 0),
       contents = [[\<lparr>cell_c = CHR ''Z'', cell_color = Some (Indexed 0)\<rparr>,
                    \<lparr>cell_c = blank, cell_color = None\<rparr>]]\<rparr>"
    by code_simp
  show "sgr_loop [38, 2, r, g, bl] 0 b =
       sgr_loop [38, 2, r, g, bl] 4 (b\<lparr>color := Some (Rgb 2 r g)\<rparr>)"
    by (subst sgr_loop.simps) simp
qed

text \<open>
  C3. A buffer constructed with positive width and height, after any list of chunks has
  been fed to \<open>write\<close> (also when one of them raised, in the state the exception left):
  the dimensions are those of the construction, the cursor column lies in \<open>0 .. width - 1\<close>
  and the cursor row in \<open>0 .. height - 1\<close>, and the grid is a list of \<open>height\<close> rows of
  \<open>width\<close> cells each, \<open>width * height\<close> cells in all. Since the list of chunks is
  arbitrary, this holds after every chunk.
\<close>

theorem buffer_invariants:
  assumes "0 < w" and "0 < h"
  shows "let b = state_of (write_all (init w h) chunks)
         in width b = w \<and> height b = h \<and>
            0 \<le> cursor_x b \<and> cursor_x b < w \<and> 0 \<le> cursor_y b \<and> cursor_y b < h \<and>
            length (contents b) = nat h \<and>
            (\<forall>row \<in> set (contents b). length row = nat w) \<and>
            length (concat (contents b)) = nat w * nat h"
proof -
  let ?b = "state_of (write_all (init w h) chunks)"
  have inv: "buffer_inv w h ?b"
    using assms by (intro write_all_inv init_inv)
  then have len: "length (contents ?b) = nat h"
    and rows: "\<forall>row \<in> set (contents ?b). length row = nat w"
    by (auto simp: buffer_inv_def grid_ok_def)
  from rows have "length (concat (contents ?b)) = length (contents ?b) * nat w"
    by (rule length_concat_rows)
  with len have "length (concat (contents ?b)) = nat w * nat h" by simp
  with inv len rows show ?thesis
    by (simp add: buffer_inv_def cursor_ok_def Let_def)
qed

theorem buffer_invariants_witness:
  "(0::int) < 2 \<and> (0::int) < 1 \<and>
   (let b = state_of (write_all (init 2 1) [''abc'', [CHR 0x0A]])
    in width b = 2 \<and> height b = 1 \<and>
       0 \<le> cursor_x b \<and> cursor_x b < 2 \<and> 0 \<le> cursor_y b \<and> cursor_y b < 1 \<and>
       length (contents b) = nat 1 \<and>
       (\<forall>row \<in> set (contents b). length row = nat 2) \<and>
       length (concat (contents b)) = nat 2 * nat 1)"
  using buffer_invariants [of 2 1 "[''abc'', [CHR 0x0A]]"] by simp

text \<open>
  C4. Code 38 as the last parameter: the guard \<open>len(parts) >= i+1\<close> holds for every
  index of the loop, so \<open>parts[i+1]\<close> is read beyond the end of the list and raises
  IndexError, for the sequence \<open>38\<close> alone and after any other parameters. The exception
  leaves \<open>write\<close>.
\<close>

theorem sgr_38_last_raises:
  "sgr_loop (ps @ [38]) (length ps) b = Raised IndexError b
   \<and> writeSgr b ''38'' = Raised IndexError b
   \<and> write_py (init 2 1) (ESC # ''[38m'') = Raised IndexError (init 2 1)"
proof (intro conjI)
  show "sgr_loop (ps @ [38]) (length ps) b = Raised IndexError b"
    by (subst sgr_loop.simps) simp
  show "writeSgr b ''38'' = Raised IndexError b"
    by (simp add: writeSgr_def sgr_loop.simps is_digit_def int_of_digits_def)
  show "write_py (init 2 1) (ESC # ''[38m'') = Raised IndexError (init 2 1)"
    by code_simp
qed

text \<open>
  C5. An erase with the mode string \<open>3\<close> (\<open>ESC [ 3 J\<close> clears the scrollback of a
  terminal): none of \<open>startx\<close>, \<open>endx\<close>, \<open>starty\<close>, \<open>endy\<close> is bound, and
  \<open>range(startx, endx)\<close> raises UnboundLocalError, for either final byte. The exception
  leaves \<open>write\<close>.
\<close>

theorem erase_unknown_mode_raises:
  "erase b func ''3'' = Raised UnboundLocalError b
   \<and> write_py (init 2 1) (ESC # ''[3J'') = Raised UnboundLocalError (init 2 1)"
proof
  show "erase b func ''3'' = Raised UnboundLocalError b"
    by (simp add: erase_def erase_bounds_def)
  show "write_py (init 2 1) (ESC # ''[3J'') = Raised UnboundLocalError (init 2 1)"
    by code_simp
qed

text \<open>
  C6. On a fresh buffer of 3 columns and 3 rows, the lines \<open>a\<close>, \<open>b\<close> and \<open>cd\<close>, a
  carriage return and \<open>ESC [ 1 J\<close>: the cursor is in column 0 of row 2. \<open>range(0, cursor_x)\<close>
  is empty, so the cell under the cursor keeps its \<open>c\<close>; \<open>range(0, cursor_y - 1)\<close> is row 0
  only, so row 1, the row above the cursor, keeps its \<open>b\<close>.
\<close>

theorem erase_to_start_stops_short:
  "write_py (init 3 3) (''a'' @ [CHR 0x0A] @ ''b'' @ [CHR 0x0A] @ ''cd'' @ [CHR 0x0D, ESC] @ ''[1J'') =
     Returned \<lparr>width = 3, height = 3, cursor_x = 0, cursor_y = 2, color = None,
       contents = [[\<lparr>cell_c = blank, cell_color = None\<rparr>,
                    \<lparr>cell_c = blank, cell_color = None\<rparr>,
                    \<lparr>cell_c = blank, cell_color = None\<rparr>],
                   [\<lparr>cell_c = CHR ''b'', cell_color = None\<rparr>,
                    \<lparr>cell_c = blank, cell_color = None\<rparr>,
                    \<lparr>cell_c = blank, cell_color = None\<rparr>],
                   [\<lparr>cell_c = CHR ''c'', cell_color = None\<rparr>,
                    \<lparr>cell_c = CHR ''d'', cell_color = None\<rparr>,
                    \<lparr>cell_c = blank, cell_color = None\<rparr>]]\<rparr>"
  by code_simp

text \<open>
  C7, as stated, fails: the row appended by a scroll is blanked through \<open>__setitem__\<close>,
  which gives each cell the current colour, not \<open>None\<close>. After \<open>ESC [ 31 m\<close> and two line
  feeds on a fresh buffer of 2 columns and 2 rows, the new bottom row has the colour
  \<open>Indexed 1\<close>.
\<close>

theorem scroll_row_color_counterexample:
  "write_py (init 2 2) (ESC # ''[31m'' @ [CHR 0x0A, CHR 0x0A]) =
     Returned \<lparr>width = 2, height = 2, cursor_x = 0, cursor_y = 1, color = Some (Indexed 1),
       contents = [[\<lparr>cell_c = blank, cell_color = None\<rparr>,
                    \<lparr>cell_c = blank, cell_color = None\<rparr>],
                   [\<lparr>cell_c = blank, cell_color = Some (Indexed 1)\<rparr>,
                    \<lparr>cell_c = blank, cell_color = Some (Indexed 1)\<rparr>]]\<rparr>"
  by code_simp

text \<open>
  C7, amended. On a grid of \<open>height\<close> rows of \<open>width\<close> cells, one scroll removes the top
  row, appends a row of spaces in the current colour and decrements \<open>cursor_y\<close>. A cursor
  move that leaves the cursor \<open>k - 1\<close> rows below the last one scrolls \<open>k\<close> times: the
  first \<open>k\<close> rows are gone, \<open>k\<close> such rows (at most \<open>height\<close>) are appended, and
  \<open>cursor_y\<close> ends below \<open>height\<close>.
\<close>

theorem moveCursor_scrolls:
  assumes "grid_ok b"
  shows "scroll b = Returned (b\<lparr>contents := tl (contents b) @
            [replicate (nat (width b)) \<lparr>cell_c = blank, cell_color = color b\<rparr>],
          cursor_y := cursor_y b - 1\<rparr>)
    \<and> moveCursor b dx dy =
       (let y' = cursor_y b + (if cursor_x b + dx \<ge> width b then dy + 1 else dy);
            k = nat (y' - height b + 1)
        in Returned (b\<lparr>cursor_x := (if cursor_x b + dx \<ge> width b \<or> cursor_x b + dx < 0 then 0
                                     else cursor_x b + dx),
             cursor_y := y' - int k,
             contents := drop k (contents b) @ replicate (min k (nat (height b)))
               (replicate (nat (width b)) \<lparr>cell_c = blank, cell_color = color b\<rparr>)\<rparr>))
    \<and> cursor_y (state_of (moveCursor b dx dy)) < height b"
proof (intro conjI)
  show "scroll b = Returned (b\<lparr>contents := tl (contents b) @
            [replicate (nat (width b)) \<lparr>cell_c = blank, cell_color = color b\<rparr>],
          cursor_y := cursor_y b - 1\<rparr>)"
    using assms by (rule scroll_exact)
  show "moveCursor b dx dy =
       (let y' = cursor_y b + (if cursor_x b + dx \<ge> width b then dy + 1 else dy);
            k = nat (y' - height b + 1)
        in Returned (b\<lparr>cursor_x := (if cursor_x b + dx \<ge> width b \<or> cursor_x b + dx < 0 then 0
                                     else cursor_x b + dx),
             cursor_y := y' - int k,
             contents := drop k (contents b) @ replicate (min k (nat (height b)))
               (replicate (nat (width b)) \<lparr>cell_c = blank, cell_color = color b\<rparr>)\<rparr>))"
    using assms by (rule moveCursor_exact)
  show "cursor_y (state_of (moveCursor b dx dy)) < height b"
    by (simp add: moveCursor_exact [OF assms] Let_def)
qed

theorem moveCursor_scrolls_witness:
  "grid_ok (init 2 2) \<and> cursor_y (state_of (moveCursor (init 2 2) 0 3)) < height (init 2 2)"
proof -
  have h: "grid_ok (init 2 2)"
    by (simp add: grid_ok_def init_def range_py_def)
  from moveCursor_scrolls [OF h, of 0 3] h show ?thesis by blast
qed

text \<open>
  C8, as stated, fails for code 22: it resets the current colour. With the colour
  \<open>Indexed 1\<close>, the sequence \<open>22\<close> leaves the colour \<open>None\<close>.
\<close>

theorem sgr_22_resets_counterexample:
  "color (state_of (writeSgr ((init 2 1)\<lparr>color := Some (Indexed 1)\<rparr>) ''22'')) = None
   \<and> color (state_of (writeSgr ((init 2 1)\<lparr>color := Some (Indexed 1)\<rparr>) ''22'')) \<noteq>
       color ((init 2 1)\<lparr>color := Some (Indexed 1)\<rparr>)"
  by code_simp

text \<open>
  C8, amended. In every parameter list, at a position that holds one of the codes 1, 4, 7,
  24, 27 or 40 to 48 the loop goes on at the next parameter with the buffer as it was; at a
  position that holds 22 it goes on at the next parameter with the current colour reset to
  \<open>None\<close>. Neither raises.
\<close>

theorem sgr_attribute_codes:
  assumes "i < length parts" and "parts ! i \<in> {1, 4, 7, 22, 24, 27} \<union> {40..48}"
  shows "sgr_loop parts i b =
           sgr_loop parts (i + 1) (if parts ! i = 22 then b\<lparr>color := None\<rparr> else b)"
  using assms by (auto simp: sgr_loop.simps [of parts i b])

theorem sgr_attribute_codes_witness:
  "0 < length [1, 31 :: int] \<and> [1, 31 :: int] ! 0 \<in> {1, 4, 7, 22, 24, 27} \<union> {40..48} \<and>
   sgr_loop [1, 31] 0 (init 2 1) = sgr_loop [1, 31] (0 + 1) (init 2 1)"
  using sgr_attribute_codes [of 0 "[1, 31]" "init 2 1"] by simp

text \<open>
  C9. A render pass emits a colour-setting call for a cell exactly when the cell's colour
  differs from the colour tracked so far, which starts as \<open>None\<close> and is the colour of the
  cell before; the number of colour-setting calls of a pass is the number of colour changes
  along the cells in row-major order. A row with the colours \<open>A, A, B, B, A\<close>, where \<open>A\<close>
  and \<open>B\<close> differ and neither is \<open>None\<close>, takes exactly 3 such calls.
\<close>

theorem render_color_calls:
  "filter is_color_call (snd (render_cell (prev, out) cell)) =
     filter is_color_call out @
       (if cell_color cell \<noteq> prev then [color_call (cell_color cell)] else [])
   \<and> length (filter is_color_call (render b)) =
       transitions None (map cell_color (concat (contents b)))
   \<and> (A \<noteq> B \<longrightarrow>
        length (filter is_color_call (render (b\<lparr>contents :=
          [map (\<lambda>col. \<lparr>cell_c = ch, cell_color = Some col\<rparr>) [A, A, B, B, A]]\<rparr>))) = 3)"
proof (intro conjI impI)
  show "filter is_color_call (snd (render_cell (prev, out) cell)) =
     filter is_color_call out @
       (if cell_color cell \<noteq> prev then [color_call (cell_color cell)] else [])"
    by (simp add: render_cell_calls)
  show count: "length (filter is_color_call (render b)) =
       transitions None (map cell_color (concat (contents b)))" for b
    using foldl_render_row [of None "[]" "contents b"] by (auto simp: render_def)
  assume "A \<noteq> B"
  then show "length (filter is_color_call (render (b\<lparr>contents :=
          [map (\<lambda>col. \<lparr>cell_c = ch, cell_color = Some col\<rparr>) [A, A, B, B, A]]\<rparr>))) = 3"
    by (simp add: count)
qed

theorem render_color_calls_witness:
  "Indexed 1 \<noteq> Indexed 2 \<and>
   length (filter is_color_call (render ((init 5 1)\<lparr>contents :=
     [map (\<lambda>col. \<lparr>cell_c = CHR ''x'', cell_color = Some col\<rparr>)
        [Indexed 1, Indexed 1, Indexed 2, Indexed 2, Indexed 1]]\<rparr>))) = 3"
  using render_color_calls [where A = "Indexed 1" and B = "Indexed 2" and b = "init 5 1"
      and ch = "CHR ''x''"]
  by simp

text \<open>
  C10. An erase with one of the mode strings \<open>""\<close>, \<open>0\<close>, \<open>1\<close>, \<open>2\<close> on a buffer that
  satisfies the invariants returns, leaves the cursor and the current colour as they were,
  and sets exactly the cells it visits to a space in the current colour of the buffer; every
  other cell is as before.
\<close>

theorem erase_frame:
  assumes "grid_ok b" and "cursor_ok b" and "sequence \<in> {[], ''0'', ''1'', ''2''}"
  shows "\<exists>b'. erase b func sequence = Returned b' \<and>
              cursor_x b' = cursor_x b \<and> cursor_y b' = cursor_y b \<and> color b' = color b \<and>
              (\<forall>x y. 0 \<le> x \<and> x < width b \<and> 0 \<le> y \<and> y < height b \<longrightarrow>
                 cell_at b' x y =
                   (if (x, y) \<in> erased b func sequence
                    then \<lparr>cell_c = blank, cell_color = color b\<rparr> else cell_at b x y))"
proof -
  from erase_blanked [OF assms, of func]
  obtain b' where "erase b func sequence = Returned b'"
    and "blanked b (erased b func sequence) b'" by blast
  then show ?thesis by (auto simp: blanked_def)
qed

theorem erase_frame_witness:
  "grid_ok (init 2 1) \<and> cursor_ok (init 2 1) \<and> ''2'' \<in> {[], ''0'', ''1'', ''2''} \<and>
   (\<exists>b'. erase (init 2 1) CHR ''J'' ''2'' = Returned b' \<and>
          cursor_x b' = cursor_x (init 2 1) \<and> cursor_y b' = cursor_y (init 2 1) \<and>
          color b' = color (init 2 1) \<and>
          (\<forall>x y. 0 \<le> x \<and> x < width (init 2 1) \<and> 0 \<le> y \<and> y < height (init 2 1) \<longrightarrow>
             cell_at b' x y =
               (if (x, y) \<in> erased (init 2 1) CHR ''J'' ''2''
                then \<lparr>cell_c = blank, cell_color = color (init 2 1)\<rparr>
                else cell_at (init 2 1) x y)))"
proof -
  have h: "grid_ok (init 2 1)" "cursor_ok (init 2 1)" "''2'' \<in> {[], ''0'', ''1'', ''2''}"
    by (simp_all add: grid_ok_def cursor_ok_def init_def range_py_def)
  from erase_frame [OF h, of "CHR ''J''"] h show ?thesis by blast
qed

end
